theory Spec2Isabelle
  imports Main "HOL-Library.Sublist"
begin

section \<open>Text cleaners of the Tacotron 2 front end (\<^verbatim>\<open>text/cleaners.py\<close>)\<close>

text \<open>
  A Python \<^verbatim>\<open>str\<close> is a sequence of Unicode code points; it is modelled as a list of
  natural numbers, one per code point. ASCII literals of the source are written with
  \<open>str\<close>, Arabic literals as lists of code points.
\<close>

type_synonym ustring = "nat list"

definition str :: "string \<Rightarrow> ustring" where
  "str s = map of_char s"

subsection \<open>Library behaviour the module relies on\<close>

text \<open>
  \<^verbatim>\<open>\s\<close> in a \<^verbatim>\<open>str\<close> pattern and \<^verbatim>\<open>str.strip()\<close> use the same test for white space:
  TAB..CR, FS..US, SPACE, NEL, NBSP, U+1680, U+2000..U+200A, U+2028, U+2029, U+202F,
  U+205F and U+3000.
\<close>

definition is_space :: "nat \<Rightarrow> bool" where
  "is_space c =
     ((9 \<le> c \<and> c \<le> 13) \<or> (28 \<le> c \<and> c \<le> 32) \<or> c = 0x85 \<or> c = 0xA0 \<or> c = 0x1680 \<or>
      (0x2000 \<le> c \<and> c \<le> 0x200A) \<or> c = 0x2028 \<or> c = 0x2029 \<or> c = 0x202F \<or>
      c = 0x205F \<or> c = 0x3000)"

text \<open>
  \<^verbatim>\<open>re.sub(r'\s+', repl, text)\<close>: scanning from the left, every maximal run of white space
  is replaced by \<open>repl\<close>; every other character is copied.
\<close>

function re_sub_whitespace :: "ustring \<Rightarrow> ustring \<Rightarrow> ustring" where
  "re_sub_whitespace repl [] = []"
| "re_sub_whitespace repl (c # cs) =
     (if is_space c then repl @ re_sub_whitespace repl (dropWhile is_space cs)
      else c # re_sub_whitespace repl cs)"
  by pat_completeness auto
termination
  by (relation "measure (\<lambda>(repl, text). length text)")
     (auto simp: length_dropWhile_le less_Suc_eq_le)

text \<open>
  \<^verbatim>\<open>re.sub\<close> with a pattern that is a single character class: every character of the
  class is replaced by \<open>repl\<close>.
\<close>

fun re_sub_class :: "(nat \<Rightarrow> bool) \<Rightarrow> ustring \<Rightarrow> ustring \<Rightarrow> ustring" where
  "re_sub_class cls repl [] = []"
| "re_sub_class cls repl (c # cs) =
     (if cls c then repl @ re_sub_class cls repl cs else c # re_sub_class cls repl cs)"

text \<open>
  \<^verbatim>\<open>text.replace(old, new)\<close>: the occurrences of \<open>old\<close> are found from the left and do
  not overlap; with an empty \<open>old\<close>, \<open>new\<close> is inserted before every character and at
  the end.
\<close>

function py_replace :: "ustring \<Rightarrow> ustring \<Rightarrow> ustring \<Rightarrow> ustring" where
  "py_replace old new [] = (if old = [] then new else [])"
| "py_replace old new (c # cs) =
     (if old = [] then new @ c # py_replace old new cs
      else if prefix old (c # cs) then new @ py_replace old new (drop (length old) (c # cs))
      else c # py_replace old new cs)"
  by pat_completeness auto
termination
  by (relation "measure (\<lambda>(old, new, text). length text)") auto

text \<open>\<^verbatim>\<open>text.strip()\<close>: leading and trailing white space is removed.\<close>

definition py_strip :: "ustring \<Rightarrow> ustring" where
  "py_strip text = rev (dropWhile is_space (rev (dropWhile is_space text)))"

text \<open>
  \<^verbatim>\<open>text.lower()\<close>: on a string of ASCII characters only, the letters A..Z are mapped to
  a..z and nothing else changes. The lowering of a string with a character beyond ASCII
  follows the Unicode tables (and is context dependent); it is the parameter
  \<open>unicode_lower\<close>.
\<close>

definition ascii_lower :: "nat \<Rightarrow> nat" where
  "ascii_lower c = (if 65 \<le> c \<and> c \<le> 90 then c + 32 else c)"

definition py_lower :: "(ustring \<Rightarrow> ustring) \<Rightarrow> ustring \<Rightarrow> ustring" where
  "py_lower unicode_lower text =
     (if list_all (\<lambda>c. c < 128) text then map ascii_lower text else unicode_lower text)"

text \<open>
  \<^verbatim>\<open>unicodedata.normalize("NFKC", text)\<close>: a string whose characters all pass the NFKC
  quick check with combining class 0 is already normalized and is returned as it is. This
  holds for the ASCII characters and for the Arabic letters U+0621..U+064A, the only
  characters the statements below depend on. For any other string the result comes from
  the Unicode decomposition and composition tables; it is the parameter \<open>nfkc\<close>.
\<close>

definition nfkc_inert :: "nat \<Rightarrow> bool" where
  "nfkc_inert c = (c < 128 \<or> (0x621 \<le> c \<and> c \<le> 0x64A))"

definition unicodedata_normalize_NFKC :: "(ustring \<Rightarrow> ustring) \<Rightarrow> ustring \<Rightarrow> ustring" where
  "unicodedata_normalize_NFKC nfkc text = (if list_all nfkc_inert text then text else nfkc text)"

subsection \<open>The regular expressions of the English abbreviation table\<close>

text \<open>
  Each entry of \<^verbatim>\<open>_abbreviations\<close> is compiled from \<^verbatim>\<open>'\\b%s\\.' % stem\<close> with
  \<^verbatim>\<open>re.IGNORECASE\<close>. A word character is an alphanumeric character or the underscore;
  beyond ASCII the test is the parameter \<open>uni_alnum\<close>. A character matches a pattern
  letter when both have the same lower case; beyond ASCII the comparison is the parameter
  \<open>uni_ci\<close>.
\<close>

definition is_word :: "(nat \<Rightarrow> bool) \<Rightarrow> nat \<Rightarrow> bool" where
  "is_word uni_alnum c =
     (if c < 128 then (48 \<le> c \<and> c \<le> 57) \<or> (65 \<le> c \<and> c \<le> 90) \<or> c = 95 \<or> (97 \<le> c \<and> c \<le> 122)
      else uni_alnum c)"

definition ci_eq :: "(nat \<Rightarrow> nat \<Rightarrow> bool) \<Rightarrow> nat \<Rightarrow> nat \<Rightarrow> bool" where
  "ci_eq uni_ci p c = (if c < 128 then ascii_lower c = ascii_lower p else uni_ci p c)"

text \<open>
  \<^verbatim>\<open>\b\<close> at a position: exactly one of the character before it and the character at it
  is a word character (a missing character counts as a non-word character).
\<close>

definition at_boundary :: "(nat \<Rightarrow> bool) \<Rightarrow> nat option \<Rightarrow> ustring \<Rightarrow> bool" where
  "at_boundary uni_alnum prev text =
     ((case prev of None \<Rightarrow> False | Some p \<Rightarrow> is_word uni_alnum p) \<noteq>
      (case text of [] \<Rightarrow> False | c # _ \<Rightarrow> is_word uni_alnum c))"

text \<open>The pattern \<^verbatim>\<open>\bstem\.\<close> matches at the head of \<open>text\<close>, \<open>prev\<close> being the character before.\<close>

definition match_abbreviation ::
  "(nat \<Rightarrow> bool) \<Rightarrow> (nat \<Rightarrow> nat \<Rightarrow> bool) \<Rightarrow> ustring \<Rightarrow> nat option \<Rightarrow> ustring \<Rightarrow> bool" where
  "match_abbreviation uni_alnum uni_ci stem prev text =
     (at_boundary uni_alnum prev text \<and>
      length stem < length text \<and>
      list_all2 (ci_eq uni_ci) stem (take (length stem) text) \<and>
      text ! length stem = 46)"

text \<open>\<^verbatim>\<open>re.sub(regex, replacement, text)\<close> for such a pattern: matches from the left, not overlapping.\<close>

function re_sub_abbreviation ::
  "(nat \<Rightarrow> bool) \<Rightarrow> (nat \<Rightarrow> nat \<Rightarrow> bool) \<Rightarrow> ustring \<Rightarrow> ustring \<Rightarrow> nat option \<Rightarrow> ustring \<Rightarrow> ustring"
where
  "re_sub_abbreviation uni_alnum uni_ci stem repl prev [] = []"
| "re_sub_abbreviation uni_alnum uni_ci stem repl prev (c # cs) =
     (if match_abbreviation uni_alnum uni_ci stem prev (c # cs)
      then repl @ re_sub_abbreviation uni_alnum uni_ci stem repl (Some 46) (drop (length stem) cs)
      else c # re_sub_abbreviation uni_alnum uni_ci stem repl (Some c) cs)"
  by pat_completeness auto
termination
  by (relation "measure (\<lambda>(uni_alnum, uni_ci, stem, repl, prev, text). length text)") auto

subsection \<open>The module\<close>

text \<open>The pairs of \<^verbatim>\<open>_abbreviations\<close>, in the order of the source.\<close>

definition abbreviations :: "(ustring \<times> ustring) list" where
  "abbreviations =
     [(str ''mrs'', str ''misess''),
      (str ''mr'', str ''mister''),
      (str ''dr'', str ''doctor''),
      (str ''st'', str ''saint''),
      (str ''co'', str ''company''),
      (str ''jr'', str ''junior''),
      (str ''maj'', str ''major''),
      (str ''gen'', str ''general''),
      (str ''drs'', str ''doctors''),
      (str ''rev'', str ''reverend''),
      (str ''lt'', str ''lieutenant''),
      (str ''hon'', str ''honorable''),
      (str ''sgt'', str ''sergeant''),
      (str ''capt'', str ''captain''),
      (str ''esq'', str ''esquire''),
      (str ''ltd'', str ''limited''),
      (str ''col'', str ''colonel''),
      (str ''ft'', str ''fort'')]"

text \<open>
  \<^verbatim>\<open>ARABIC_ABBREVIATIONS\<close>: the dictionary as the list of its items in insertion order,
  which is the order \<^verbatim>\<open>.items()\<close> iterates in.
\<close>

definition ARABIC_ABBREVIATIONS :: "(ustring \<times> ustring) list" where
  "ARABIC_ABBREVIATIONS =
     [([0x62F, 0x2E], [0x62F, 0x643, 0x62A, 0x648, 0x631]),
      ([0x623, 0x2E, 0x62F],
         [0x623, 0x633, 0x62A, 0x627, 0x630, 0x20, 0x62F, 0x643, 0x62A, 0x648, 0x631]),
      ([0x645, 0x2E], [0x645, 0x647, 0x646, 0x62F, 0x633]),
      ([0x643, 0x62C, 0x645], [0x643, 0x64A, 0x644, 0x648, 0x63A, 0x631, 0x627, 0x645]),
      ([0x643, 0x645], [0x643, 0x64A, 0x644, 0x648, 0x645, 0x62A, 0x631]),
      ([0x62F, 0x648, 0x644, 0x627, 0x631],
         [0x62F, 0x648, 0x644, 0x627, 0x631, 0x20, 0x623, 0x645, 0x631, 0x64A, 0x643, 0x64A])]"

definition arabic_diacritic :: "nat \<Rightarrow> bool" where
  "arabic_diacritic c = (0x64B \<le> c \<and> c \<le> 0x65F)"

definition remove_diacritics :: "ustring \<Rightarrow> ustring" where
  "remove_diacritics text = re_sub_class arabic_diacritic [] text"

text \<open>The loop over \<^verbatim>\<open>ARABIC_ABBREVIATIONS.items()\<close> of \<^verbatim>\<open>normalize_arabic_text\<close>.\<close>

fun expand_arabic :: "(ustring \<times> ustring) list \<Rightarrow> ustring \<Rightarrow> ustring" where
  "expand_arabic [] text = text"
| "expand_arabic ((abbr, full) # items) text = expand_arabic items (py_replace abbr full text)"

definition normalize_arabic_text :: "(ustring \<Rightarrow> ustring) \<Rightarrow> ustring \<Rightarrow> ustring" where
  "normalize_arabic_text nfkc text =
     py_strip
       (py_replace [34] []
         (re_sub_whitespace [32]
           (expand_arabic ARABIC_ABBREVIATIONS
             (remove_diacritics (unicodedata_normalize_NFKC nfkc text)))))"

fun expand_abbreviations_loop ::
  "(nat \<Rightarrow> bool) \<Rightarrow> (nat \<Rightarrow> nat \<Rightarrow> bool) \<Rightarrow> (ustring \<times> ustring) list \<Rightarrow> ustring \<Rightarrow> ustring" where
  "expand_abbreviations_loop uni_alnum uni_ci [] text = text"
| "expand_abbreviations_loop uni_alnum uni_ci ((stem, replacement) # rest) text =
     expand_abbreviations_loop uni_alnum uni_ci rest
       (re_sub_abbreviation uni_alnum uni_ci stem replacement None text)"

definition expand_abbreviations ::
  "(nat \<Rightarrow> bool) \<Rightarrow> (nat \<Rightarrow> nat \<Rightarrow> bool) \<Rightarrow> ustring \<Rightarrow> ustring" where
  "expand_abbreviations uni_alnum uni_ci text =
     expand_abbreviations_loop uni_alnum uni_ci abbreviations text"

text \<open>
  \<^verbatim>\<open>normalize_numbers\<close> is imported from the sibling module \<^verbatim>\<open>numbers\<close> and
  \<^verbatim>\<open>unidecode\<close> from the Unidecode package; both are parameters.
\<close>

definition expand_numbers :: "(ustring \<Rightarrow> ustring) \<Rightarrow> ustring \<Rightarrow> ustring" where
  "expand_numbers normalize_numbers text = normalize_numbers text"

definition lowercase :: "(ustring \<Rightarrow> ustring) \<Rightarrow> ustring \<Rightarrow> ustring" where
  "lowercase unicode_lower text = py_lower unicode_lower text"

definition collapse_whitespace :: "ustring \<Rightarrow> ustring" where
  "collapse_whitespace text = re_sub_whitespace [32] text"

definition convert_to_ascii :: "(ustring \<Rightarrow> ustring) \<Rightarrow> ustring \<Rightarrow> ustring" where
  "convert_to_ascii unidecode text = unidecode text"

definition basic_cleaners :: "(ustring \<Rightarrow> ustring) \<Rightarrow> ustring \<Rightarrow> ustring" where
  "basic_cleaners unicode_lower text = collapse_whitespace (lowercase unicode_lower text)"

definition transliteration_cleaners ::
  "(ustring \<Rightarrow> ustring) \<Rightarrow> (ustring \<Rightarrow> ustring) \<Rightarrow> ustring \<Rightarrow> ustring" where
  "transliteration_cleaners unidecode unicode_lower text =
     collapse_whitespace (lowercase unicode_lower (convert_to_ascii unidecode text))"

definition english_cleaners :: "(ustring \<Rightarrow> ustring) \<Rightarrow> ustring \<Rightarrow> ustring" where
  "english_cleaners nfkc text = normalize_arabic_text nfkc text"

subsection \<open>Notions used in the statements\<close>

text \<open>The text is empty or starts with a character that is not white space.\<close>

definition headed :: "ustring \<Rightarrow> bool" where
  "headed text = (case text of [] \<Rightarrow> True | c # _ \<Rightarrow> \<not> is_space c)"

text \<open>Two adjacent white space characters somewhere in the text.\<close>

fun has_whitespace_run :: "ustring \<Rightarrow> bool" where
  "has_whitespace_run (c # d # cs) = ((is_space c \<and> is_space d) \<or> has_whitespace_run (d # cs))"
| "has_whitespace_run cs = False"

text \<open>The number of positions of the text at which \<open>p\<close> occurs.\<close>

fun count_occ :: "ustring \<Rightarrow> ustring \<Rightarrow> nat" where
  "count_occ p [] = 0"
| "count_occ p (c # cs) = (if prefix p (c # cs) then 1 else 0) + count_occ p cs"

text \<open>Two strings that agree as far as both go: one is a prefix of the other.\<close>

definition compatible :: "ustring \<Rightarrow> ustring \<Rightarrow> bool" where
  "compatible a b = (prefix a b \<or> prefix b a)"

text \<open>The fourth and the sixth entry of \<^verbatim>\<open>ARABIC_ABBREVIATIONS\<close>: kg and dollar.\<close>

definition kg_abbr :: ustring where
  "kg_abbr = [0x643, 0x62C, 0x645]"

definition kilogram :: ustring where
  "kilogram = [0x643, 0x64A, 0x644, 0x648, 0x63A, 0x631, 0x627, 0x645]"

definition dollar :: ustring where
  "dollar = [0x62F, 0x648, 0x644, 0x627, 0x631]"

definition us_dollar :: ustring where
  "us_dollar = [0x62F, 0x648, 0x644, 0x627, 0x631, 0x20, 0x623, 0x645, 0x631, 0x64A, 0x643, 0x64A]"

text \<open>
  A non-empty string of ASCII letters and single spaces that neither starts nor ends with
  a space.
\<close>

definition ascii_letter :: "nat \<Rightarrow> bool" where
  "ascii_letter c = ((65 \<le> c \<and> c \<le> 90) \<or> (97 \<le> c \<and> c \<le> 122))"

definition ascii_upper :: "nat \<Rightarrow> bool" where
  "ascii_upper c = (65 \<le> c \<and> c \<le> 90)"

fun no_adjacent_spaces :: "ustring \<Rightarrow> bool" where
  "no_adjacent_spaces (c # d # cs) = (\<not> (c = 32 \<and> d = 32) \<and> no_adjacent_spaces (d # cs))"
| "no_adjacent_spaces cs = True"

definition letters_single_spaced :: "ustring \<Rightarrow> bool" where
  "letters_single_spaced s =
     (s \<noteq> [] \<and> list_all (\<lambda>c. ascii_letter c \<or> c = 32) s \<and> hd s \<noteq> 32 \<and> last s \<noteq> 32 \<and>
      no_adjacent_spaces s)"

text \<open>An ASCII word character: a digit, a letter or the underscore.\<close>

definition ascii_word :: "nat \<Rightarrow> bool" where
  "ascii_word c = ((48 \<le> c \<and> c \<le> 57) \<or> (65 \<le> c \<and> c \<le> 90) \<or> c = 95 \<or> (97 \<le> c \<and> c \<le> 122))"

section \<open>Properties\<close>

subsection \<open>Diacritic removal\<close>

lemma re_sub_class_empty_filter: "re_sub_class cls [] text = filter (\<lambda>c. \<not> cls c) text"
  by (induction "text") simp_all

text \<open>
  C5. For every string, \<open>remove_diacritics\<close> returns the string with every character whose
  code point lies in U+064B..U+065F deleted and all other characters unchanged, in their
  original order; the empty string gives the empty string.
\<close>

theorem remove_diacritics_deletes_range:
  "remove_diacritics text = filter (\<lambda>c. \<not> (0x64B \<le> c \<and> c \<le> 0x65F)) text \<and>
   remove_diacritics [] = []"
  by (simp add: remove_diacritics_def re_sub_class_empty_filter arabic_diacritic_def)

text \<open>C8. \<open>remove_diacritics\<close> is idempotent.\<close>

theorem remove_diacritics_idempotent:
  "remove_diacritics (remove_diacritics s) = remove_diacritics s"
  by (simp add: remove_diacritics_def re_sub_class_empty_filter)

subsection \<open>White space\<close>

lemma headed_dropWhile: "headed (dropWhile is_space text)"
  by (induction "text") (simp_all add: headed_def)

lemma dropWhile_headed: "headed text \<Longrightarrow> dropWhile is_space text = text"
  by (cases "text") (simp_all add: headed_def)

lemma headed_re_sub_whitespace: "headed text \<Longrightarrow> headed (re_sub_whitespace [32] text)"
  by (cases "text") (simp_all add: headed_def)

lemma is_space_32: "is_space 32"
  by (simp add: is_space_def)

lemma re_sub_whitespace_twice:
  "re_sub_whitespace [32] (re_sub_whitespace [32] s) = re_sub_whitespace [32] s"
proof (induction "[32::nat]" s rule: re_sub_whitespace.induct)
  case 1
  show ?case by simp
next
  case (2 c cs)
  show ?case
  proof (cases "is_space c")
    case True
    have "headed (re_sub_whitespace [32] (dropWhile is_space cs))"
      by (rule headed_re_sub_whitespace) (rule headed_dropWhile)
    then have "dropWhile is_space (re_sub_whitespace [32] (dropWhile is_space cs))
        = re_sub_whitespace [32] (dropWhile is_space cs)"
      by (rule dropWhile_headed)
    with True 2 show ?thesis by (simp add: is_space_32)
  next
    case False
    with 2 show ?thesis by simp
  qed
qed

text \<open>C7. \<open>collapse_whitespace\<close> is idempotent.\<close>

theorem collapse_whitespace_idempotent:
  "collapse_whitespace (collapse_whitespace s) = collapse_whitespace s"
  by (simp add: collapse_whitespace_def re_sub_whitespace_twice)

subsection \<open>Sets of characters\<close>

lemma py_replace_char_empty: "py_replace [q] [] t = filter (\<lambda>c. c \<noteq> q) t"
  by (induction "[q]" "[]::nat list" t rule: py_replace.induct) auto

lemma expand_arabic_foldl:
  "expand_arabic items t = foldl (\<lambda>t (abbr, full). py_replace abbr full t) t items"
  by (induction items t rule: expand_arabic.induct) simp_all

lemma py_replace_absent:
  assumes "c \<in> set old" "c \<notin> set s"
  shows "py_replace old new s = s"
  using assms
proof (induction old new s rule: py_replace.induct)
  case (1 old new)
  then show ?case by auto
next
  case (2 old new x xs)
  then have k: "old \<noteq> []" by auto
  have "\<not> prefix old (x # xs)"
  proof
    assume "prefix old (x # xs)"
    then have "set old \<subseteq> set (x # xs)" by (rule set_mono_prefix)
    with 2 show False by auto
  qed
  with 2 k show ?case by simp
qed

lemma letter_not_space: "ascii_letter c \<Longrightarrow> \<not> is_space c"
  by (auto simp: ascii_letter_def is_space_def)

lemma re_sub_whitespace_single_spaced:
  "list_all (\<lambda>c. ascii_letter c \<or> c = 32) s \<Longrightarrow> no_adjacent_spaces s \<Longrightarrow>
   re_sub_whitespace [32] s = s"
proof (induction s rule: no_adjacent_spaces.induct)
  case (1 c d cs)
  then have ih: "re_sub_whitespace [32] (d # cs) = d # cs" by simp
  show ?case
  proof (cases "is_space c")
    case True
    with 1 have c: "c = 32" using letter_not_space by auto
    with 1 have "ascii_letter d" by auto
    then have "\<not> is_space d" by (rule letter_not_space)
    with True c ih show ?thesis by simp
  next
    case False
    with ih show ?thesis by simp
  qed
qed (auto dest: letter_not_space)

lemma py_strip_id:
  assumes "s \<noteq> []" "\<not> is_space (hd s)" "\<not> is_space (last s)"
  shows "py_strip s = s"
proof -
  have "dropWhile is_space s = s" using assms by (cases s) auto
  moreover have "dropWhile is_space (rev s) = rev s"
    using assms by (cases "rev s") (auto simp: hd_rev [symmetric])
  ultimately show ?thesis by (simp add: py_strip_def)
qed

lemma set_re_sub_whitespace: "set (re_sub_whitespace r t) \<subseteq> set t \<union> set r"
proof (induction r t rule: re_sub_whitespace.induct)
  case (1 repl)
  show ?case by simp
next
  case (2 repl c cs)
  have "set (dropWhile is_space cs) \<subseteq> set cs" by (auto dest: set_dropWhileD)
  with 2 show ?case by (cases "is_space c") auto
qed

lemma english_cleaners_fixes:
  assumes "letters_single_spaced s"
  shows "english_cleaners nfkc s = s"
proof -
  have all: "list_all (\<lambda>c. ascii_letter c \<or> c = 32) s" and ne: "s \<noteq> []"
    and h: "hd s \<noteq> 32" and l: "last s \<noteq> 32" and adj: "no_adjacent_spaces s"
    using assms by (simp_all add: letters_single_spaced_def)
  have small: "c < 128" if "c \<in> set s" for c
    using all that by (auto simp: list_all_iff ascii_letter_def)
  have 1: "unicodedata_normalize_NFKC nfkc s = s"
    using small by (simp add: unicodedata_normalize_NFKC_def list_all_iff nfkc_inert_def)
  have 2: "remove_diacritics s = s"
  proof -
    have "\<forall>c \<in> set s. \<not> arabic_diacritic c"
      using small by (fastforce simp: arabic_diacritic_def)
    then show ?thesis
      by (simp add: remove_diacritics_def re_sub_class_empty_filter filter_id_conv)
  qed
  have 3: "expand_arabic ARABIC_ABBREVIATIONS s = s"
  proof -
    have a: "py_replace (c # old) new s = s" if "128 \<le> c" for c old new
    proof (rule py_replace_absent [of c])
      show "c \<in> set (c # old)" by simp
      show "c \<notin> set s" using that small [of c] by auto
    qed
    show ?thesis by (simp add: ARABIC_ABBREVIATIONS_def a)
  qed
  have 4: "re_sub_whitespace [32] s = s"
    using all adj by (rule re_sub_whitespace_single_spaced)
  have 5: "py_replace [34] [] s = s"
    using all by (intro py_replace_absent [of 34]) (auto simp: list_all_iff ascii_letter_def)
  have "hd s \<in> set s" "last s \<in> set s" using ne by simp_all
  with all h l have "ascii_letter (hd s)" "ascii_letter (last s)" by (auto simp: list_all_iff)
  then have 6: "py_strip s = s"
    using ne by (intro py_strip_id) (auto dest: letter_not_space)
  show ?thesis
    by (simp add: english_cleaners_def normalize_arabic_text_def 1 2 3 4 5 6)
qed

lemma basic_cleaners_no_upper:
  assumes "list_all (\<lambda>c. c < 128) s"
  shows "\<forall>c \<in> set (basic_cleaners unicode_lower s). \<not> ascii_upper c"
proof -
  have "set (basic_cleaners unicode_lower s) \<subseteq> set (map ascii_lower s) \<union> {32}"
    using assms set_re_sub_whitespace [of "[32]" "map ascii_lower s"]
    by (simp add: basic_cleaners_def lowercase_def py_lower_def collapse_whitespace_def)
  moreover have "\<not> ascii_upper (ascii_lower c)" for c
    by (simp add: ascii_upper_def ascii_lower_def)
  ultimately show ?thesis by (auto simp: ascii_upper_def)
qed

lemma set_py_replace: "old \<noteq> [] \<Longrightarrow> set (py_replace old new t) \<subseteq> set t \<union> set new"
proof (induction old new t rule: py_replace.induct)
  case (1 old new)
  then show ?case by simp
next
  case (2 old new c cs)
  have "set (drop (length old) (c # cs)) \<subseteq> set (c # cs)" by (rule set_drop_subset)
  with 2 show ?case by (cases "prefix old (c # cs)") auto
qed

lemma set_expand_arabic:
  "\<forall>(abbr, full) \<in> set items. abbr \<noteq> [] \<Longrightarrow>
   set (expand_arabic items t) \<subseteq> set t \<union> (\<Union>(abbr, full) \<in> set items. set full)"
proof (induction items t rule: expand_arabic.induct)
  case (1 t)
  show ?case by simp
next
  case (2 abbr full items t)
  then have "set (py_replace abbr full t) \<subseteq> set t \<union> set full" by (simp add: set_py_replace)
  with 2 show ?case by auto
qed

lemma set_py_strip: "set (py_strip t) \<subseteq> set t"
  unfolding py_strip_def by (auto dest!: set_dropWhileD)

lemma py_strip_ends:
  "py_strip t = [] \<or> (\<not> is_space (hd (py_strip t)) \<and> \<not> is_space (last (py_strip t)))"
proof (cases "py_strip t = []")
  case True then show ?thesis ..
next
  case False
  let ?u = "dropWhile is_space t"
  let ?r = "dropWhile is_space (rev ?u)"
  have s: "py_strip t = rev ?r" by (simp add: py_strip_def)
  with False have r: "?r \<noteq> []" by simp
  then have "\<not> is_space (hd ?r)" by (rule hd_dropWhile)
  then have l: "\<not> is_space (last (py_strip t))" using s r by (simp add: last_rev)
  have "rev ?u = takeWhile is_space (rev ?u) @ ?r" by simp
  then have u: "?u = py_strip t @ rev (takeWhile is_space (rev ?u))"
    unfolding s by (metis rev_append rev_rev_ident)
  then have "hd ?u = hd (py_strip t)" using False by (metis hd_append2)
  moreover have "?u \<noteq> []" using u False by (metis append_is_Nil_conv)
  then have "\<not> is_space (hd ?u)" by (rule hd_dropWhile)
  ultimately show ?thesis using l by simp
qed

lemma normalize_arabic_text_clean:
  "(\<forall>c \<in> set (normalize_arabic_text nfkc s). \<not> arabic_diacritic c \<and> c \<noteq> 34) \<and>
   (normalize_arabic_text nfkc s = [] \<or>
     (\<not> is_space (hd (normalize_arabic_text nfkc s)) \<and>
      \<not> is_space (last (normalize_arabic_text nfkc s))))"
proof -
  let ?t = "remove_diacritics (unicodedata_normalize_NFKC nfkc s)"
  let ?e = "expand_arabic ARABIC_ABBREVIATIONS ?t"
  let ?w = "re_sub_whitespace [32] ?e"
  let ?q = "py_replace [34] [] ?w"
  have n: "normalize_arabic_text nfkc s = py_strip ?q" by (simp add: normalize_arabic_text_def)
  have t: "\<forall>c \<in> set ?t. \<not> arabic_diacritic c"
    by (simp add: remove_diacritics_def re_sub_class_empty_filter)
  have "set ?e \<subseteq> set ?t \<union> (\<Union>(abbr, full) \<in> set ARABIC_ABBREVIATIONS. set full)"
    by (rule set_expand_arabic) (simp add: ARABIC_ABBREVIATIONS_def)
  moreover have "\<forall>c \<in> (\<Union>(abbr, full) \<in> set ARABIC_ABBREVIATIONS. set full). \<not> arabic_diacritic c"
    by (simp add: ARABIC_ABBREVIATIONS_def arabic_diacritic_def)
  ultimately have e: "\<forall>c \<in> set ?e. \<not> arabic_diacritic c" using t by blast
  have "set ?w \<subseteq> set ?e \<union> set [32]" by (rule set_re_sub_whitespace)
  moreover have "\<not> arabic_diacritic 32" by (simp add: arabic_diacritic_def)
  ultimately have w: "\<forall>c \<in> set ?w. \<not> arabic_diacritic c" using e by auto
  have q: "\<forall>c \<in> set ?q. \<not> arabic_diacritic c \<and> c \<noteq> 34"
    using w by (simp add: py_replace_char_empty)
  have "set (py_strip ?q) \<subseteq> set ?q" by (rule set_py_strip)
  with q have "\<forall>c \<in> set (py_strip ?q). \<not> arabic_diacritic c \<and> c \<noteq> 34" by blast
  then show ?thesis unfolding n using py_strip_ends [of ?q] by blast
qed

lemmas normalize_arabic_text_eval =
  normalize_arabic_text_def unicodedata_normalize_NFKC_def nfkc_inert_def remove_diacritics_def
  arabic_diacritic_def ARABIC_ABBREVIATIONS_def py_strip_def is_space_def

subsection \<open>The Arabic pipeline\<close>

text \<open>
  C1. The claim is that the output of \<open>normalize_arabic_text\<close> never has two adjacent
  white space characters (and no diacritic, no double quote, no white space at either
  end). The double quotes are removed after the white space has been collapsed: on
  the five characters \<open>a\<close>, space, double quote, space, \<open>b\<close> the quote between the two
  spaces goes and the output is \<open>a\<close>, two spaces, \<open>b\<close>. The other three parts hold on
  every input: \<open>normalize_arabic_text_clean\<close>.
\<close>

theorem normalize_arabic_text_quote_between_spaces:
  "normalize_arabic_text nfkc [97, 32, 34, 32, 98] = [97, 32, 32, 98] \<and>
   has_whitespace_run (normalize_arabic_text nfkc [97, 32, 34, 32, 98])"
  by (simp add: normalize_arabic_text_eval)

text \<open>
  C2. \<open>english_cleaners\<close> is \<open>normalize_arabic_text\<close> on every input: NFKC, diacritic
  removal, the Arabic table in order, white space collapse, quote removal, strip. The
  other two pipelines are lowercase then collapse, after \<open>convert_to_ascii\<close> for the
  transliteration one. No pipeline has \<open>expand_abbreviations\<close> or \<open>expand_numbers\<close> among
  its steps.
\<close>

theorem english_cleaners_is_arabic_pipeline:
  "english_cleaners nfkc text = normalize_arabic_text nfkc text \<and>
   english_cleaners nfkc text =
     py_strip (filter (\<lambda>c. c \<noteq> 34) (collapse_whitespace
       (foldl (\<lambda>t (abbr, full). py_replace abbr full t)
          (remove_diacritics (unicodedata_normalize_NFKC nfkc text)) ARABIC_ABBREVIATIONS))) \<and>
   basic_cleaners unicode_lower text = collapse_whitespace (lowercase unicode_lower text) \<and>
   transliteration_cleaners unidecode unicode_lower text =
     collapse_whitespace (lowercase unicode_lower (convert_to_ascii unidecode text))"
  by (simp add: english_cleaners_def normalize_arabic_text_def basic_cleaners_def
      transliteration_cleaners_def py_replace_char_empty expand_arabic_foldl collapse_whitespace_def)

subsection \<open>Occurrences of a string and \<open>py_replace\<close>\<close>

lemma count_occ_append_ge: "count_occ p b \<le> count_occ p (a @ b)"
  by (induction a) simp_all

lemma prefix_append_compatible: "prefix p (s @ b) \<Longrightarrow> compatible p s"
  unfolding compatible_def by (metis prefix_append prefixI)

lemma count_occ_skip:
  assumes "\<forall>s' \<in> set (suffixes s). s' \<noteq> [] \<longrightarrow> \<not> compatible p s'"
  shows "count_occ p (s @ b) = count_occ p b"
  using assms
proof (induction s)
  case Nil
  show ?case by simp
next
  case (Cons c s)
  have "\<not> compatible p (c # s)" using Cons.prems by simp
  then have "\<not> prefix p ((c # s) @ b)" using prefix_append_compatible by blast
  moreover have "count_occ p (s @ b) = count_occ p b"
    using Cons by simp
  ultimately show ?case by simp
qed

lemma replace_keeps_prefix:
  assumes k: "k \<noteq> []"
    and a3: "\<forall>s \<in> set (suffixes p). s \<noteq> [] \<longrightarrow> \<not> prefix k s \<and> (prefix s k \<longrightarrow> prefix s v)"
  shows "suffix s p \<Longrightarrow> prefix s (py_replace k v (s @ z))"
proof (induction s)
  case Nil
  show ?case by simp
next
  case (Cons c s)
  have sp: "c # s \<in> set (suffixes p)" using Cons.prems by (simp add: in_set_suffixes)
  show ?case
  proof (cases "prefix k (c # s @ z)")
    case True
    then have "prefix k (c # s) \<or> prefix (c # s) k"
      by (metis append_Cons prefix_append_compatible compatible_def)
    with a3 sp have "prefix (c # s) v" by blast
    with True k show ?thesis by (simp add: prefix_def) (metis append.assoc append_Cons)
  next
    case False
    have "suffix s p" using Cons.prems by (rule suffix_ConsD)
    with Cons.IH have "prefix s (py_replace k v (s @ z))" by simp
    with False k show ?thesis by simp
  qed
qed

lemma count_occ_replace_mono:
  assumes "k \<noteq> []"
    and "\<forall>s \<in> set (suffixes k). s \<noteq> [] \<longrightarrow> \<not> compatible p s"
    and "\<forall>s \<in> set (suffixes p). s \<noteq> [] \<longrightarrow> \<not> prefix k s \<and> (prefix s k \<longrightarrow> prefix s v)"
  shows "count_occ p t \<le> count_occ p (py_replace k v t)"
  using assms
proof (induction k v t rule: py_replace.induct)
  case (1 old new)
  then show ?case by simp
next
  case (2 old new c cs)
  note k = \<open>old \<noteq> []\<close>
  show ?case
  proof (cases "prefix old (c # cs)")
    case True
    then obtain b where b: "c # cs = old @ b" by (auto simp: prefix_def)
    then have d: "drop (length old) (c # cs) = b" by simp
    have "count_occ p (c # cs) = count_occ p b"
      unfolding b using "2.prems"(2) by (rule count_occ_skip)
    also have "\<dots> \<le> count_occ p (py_replace old new b)"
      using "2.IH"(2) [OF k True] "2.prems" d by simp
    also have "\<dots> \<le> count_occ p (new @ py_replace old new b)"
      by (rule count_occ_append_ge)
    finally show ?thesis using True k d by simp
  next
    case False
    have ih: "count_occ p cs \<le> count_occ p (py_replace old new cs)"
      using "2.IH"(3) [OF k False] "2.prems" by simp
    have r: "py_replace old new (c # cs) = c # py_replace old new cs"
      using False k by simp
    have "prefix p (c # py_replace old new cs)" if "prefix p (c # cs)"
    proof -
      from that obtain z where z: "c # cs = p @ z" by (auto simp: prefix_def)
      have "prefix p (py_replace old new (p @ z))"
        using k "2.prems"(3) by (rule replace_keeps_prefix) simp
      then show ?thesis using r z by simp
    qed
    then show ?thesis using ih r by auto
  qed
qed

lemma count_occ_replaced:
  assumes "k \<noteq> []" and "v \<noteq> []"
    and "\<forall>s \<in> set (suffixes (tl k)). s \<noteq> [] \<longrightarrow> \<not> compatible k s"
  shows "count_occ k t \<le> count_occ v (py_replace k v t)"
  using assms
proof (induction k v t rule: py_replace.induct)
  case (1 old new)
  then show ?case by simp
next
  case (2 old new c cs)
  note k = \<open>old \<noteq> []\<close>
  show ?case
  proof (cases "prefix old (c # cs)")
    case True
    then obtain b where b: "c # cs = old @ b" by (auto simp: prefix_def)
    then have d: "drop (length old) (c # cs) = b" by simp
    from k b have cs: "cs = tl old @ b" by (cases old) auto
    have "count_occ old (c # cs) = 1 + count_occ old cs" using True by simp
    also have "count_occ old cs = count_occ old b"
      unfolding cs using "2.prems"(3) by (rule count_occ_skip)
    also have "1 + count_occ old b \<le> 1 + count_occ new (py_replace old new b)"
      using "2.IH"(2) [OF k True] "2.prems" d by simp
    also have "\<dots> \<le> count_occ new (new @ py_replace old new b)"
    proof -
      obtain x xs where n: "new = x # xs" using \<open>new \<noteq> []\<close> by (cases new) auto
      have "count_occ new (py_replace old new b) \<le> count_occ new (xs @ py_replace old new b)"
        by (rule count_occ_append_ge)
      then show ?thesis unfolding n by simp
    qed
    finally show ?thesis using True k d by simp
  next
    case False
    have "count_occ old cs \<le> count_occ new (py_replace old new cs)"
      using "2.IH"(3) [OF k False] "2.prems" by simp
    then show ?thesis using False k by simp
  qed
qed


lemma not_prefix_space:
  assumes "p \<noteq> []" "list_all (\<lambda>c. \<not> is_space c) p" "is_space c"
  shows "\<not> prefix p (c # cs)"
  using assms by (cases p) auto

lemma count_occ_dropWhile_space:
  assumes "p \<noteq> []" "list_all (\<lambda>c. \<not> is_space c) p"
  shows "count_occ p (dropWhile is_space cs) = count_occ p cs"
  using assms by (induction cs) (simp_all add: not_prefix_space)

lemma re_sub_whitespace_keeps:
  "list_all (\<lambda>c. \<not> is_space c) s \<Longrightarrow> re_sub_whitespace r (s @ z) = s @ re_sub_whitespace r z"
  by (induction s) simp_all

lemma count_occ_re_sub_whitespace:
  assumes "p \<noteq> []" "list_all (\<lambda>c. \<not> is_space c) p"
  shows "count_occ p t \<le> count_occ p (re_sub_whitespace r t)"
  using assms
proof (induction r t rule: re_sub_whitespace.induct)
  case (1 repl)
  show ?case by simp
next
  case (2 repl c cs)
  show ?case
  proof (cases "is_space c")
    case True
    have "count_occ p (c # cs) = count_occ p cs"
      using True "2.prems" by (simp add: not_prefix_space)
    also have "\<dots> = count_occ p (dropWhile is_space cs)"
      using "2.prems" by (simp add: count_occ_dropWhile_space)
    also have "\<dots> \<le> count_occ p (re_sub_whitespace repl (dropWhile is_space cs))"
      using "2.IH"(1) [OF True] "2.prems" by simp
    also have "\<dots> \<le> count_occ p (repl @ re_sub_whitespace repl (dropWhile is_space cs))"
      by (rule count_occ_append_ge)
    finally show ?thesis using True by simp
  next
    case False
    have ih: "count_occ p cs \<le> count_occ p (re_sub_whitespace repl cs)"
      using "2.IH"(2) [OF False] "2.prems" by simp
    have "prefix p (c # re_sub_whitespace repl cs)" if "prefix p (c # cs)"
    proof -
      from that obtain z where z: "c # cs = p @ z" by (auto simp: prefix_def)
      have "re_sub_whitespace repl (p @ z) = p @ re_sub_whitespace repl z"
        using "2.prems"(2) by (rule re_sub_whitespace_keeps)
      then show ?thesis using z False by (metis prefixI re_sub_whitespace.simps(2))
    qed
    then show ?thesis using ih False by auto
  qed
qed

lemma prefix_append_spaces:
  assumes "list_all (\<lambda>c. \<not> is_space c) p" "list_all is_space w"
  shows "prefix p (a @ w) \<longleftrightarrow> prefix p a"
proof
  assume "prefix p (a @ w)"
  then consider "prefix p a" | us where "p = a @ us" "prefix us w"
    by (auto simp: prefix_append)
  then show "prefix p a"
  proof cases
    case 1 then show ?thesis .
  next
    case 2
    have "us = []"
    proof (cases us)
      case Nil then show ?thesis .
    next
      case (Cons u us')
      with 2 have "u \<in> set p" "u \<in> set w" by (auto simp: prefix_def)
      with assms show ?thesis by (auto simp: list_all_iff)
    qed
    with 2 show ?thesis by simp
  qed
next
  assume "prefix p a" then show "prefix p (a @ w)" by (rule prefix_prefix)
qed

lemma count_occ_spaces:
  assumes "p \<noteq> []" "list_all (\<lambda>c. \<not> is_space c) p" "list_all is_space w"
  shows "count_occ p w = 0"
  using assms by (induction w) (simp_all add: not_prefix_space)

lemma count_occ_append_spaces:
  assumes "p \<noteq> []" "list_all (\<lambda>c. \<not> is_space c) p" "list_all is_space w"
  shows "count_occ p (a @ w) = count_occ p a"
proof (induction a)
  case Nil
  show ?case using assms by (simp add: count_occ_spaces)
next
  case (Cons c a)
  have "prefix p ((c # a) @ w) \<longleftrightarrow> prefix p (c # a)"
    using assms(2,3) by (rule prefix_append_spaces)
  with Cons show ?case by simp
qed

lemma count_occ_py_strip:
  assumes "p \<noteq> []" "list_all (\<lambda>c. \<not> is_space c) p"
  shows "count_occ p (py_strip t) = count_occ p t"
proof -
  let ?u = "dropWhile is_space t"
  let ?w = "rev (takeWhile is_space (rev ?u))"
  have u: "?u = py_strip t @ ?w"
    unfolding py_strip_def by (metis rev_append rev_rev_ident takeWhile_dropWhile_id)
  have w: "list_all is_space ?w"
    by (simp add: list_all_iff) (metis set_takeWhileD)
  have "count_occ p t = count_occ p ?u"
    using assms by (simp add: count_occ_dropWhile_space)
  also have "\<dots> = count_occ p (py_strip t @ ?w)" using u by simp
  also have "\<dots> = count_occ p (py_strip t)"
    using assms w by (rule count_occ_append_spaces)
  finally show ?thesis by simp
qed


lemma replace_prefix_reflect:
  assumes "k \<noteq> []"
    and "\<forall>s \<in> set (suffixes p). s \<noteq> [] \<longrightarrow> \<not> compatible s v"
  shows "suffix s p \<Longrightarrow> s \<noteq> [] \<Longrightarrow> prefix s (py_replace k v u) \<Longrightarrow> prefix s u"
  using assms
proof (induction k v u arbitrary: s rule: py_replace.induct)
  case (1 old new)
  then show ?case by simp
next
  case (2 old new c cs)
  note k = \<open>old \<noteq> []\<close>
  have nc: "\<not> compatible s new" using "2.prems" by simp
  show ?case
  proof (cases "prefix old (c # cs)")
    case True
    then have "prefix s (new @ py_replace old new (drop (length old) (c # cs)))"
      using "2.prems"(3) k by simp
    then have "compatible s new" by (rule prefix_append_compatible)
    with nc show ?thesis by simp
  next
    case False
    then have r: "py_replace old new (c # cs) = c # py_replace old new cs" using k by simp
    obtain x s' where s: "s = x # s'" using \<open>s \<noteq> []\<close> by (cases s) auto
    with r "2.prems"(3) have x: "x = c" and p': "prefix s' (py_replace old new cs)" by simp_all
    show ?thesis
    proof (cases "s' = []")
      case True
      with s x show ?thesis by simp
    next
      case ne: False
      have "suffix s' p" using "2.prems"(1) s by (auto dest: suffix_ConsD)
      then have "prefix s' cs"
        using "2.IH"(3) [OF k False _ ne p' k] "2.prems"(5) by simp
      with s x show ?thesis by simp
    qed
  qed
qed

lemma count_occ_replace_none:
  assumes "k \<noteq> []" and "p \<noteq> []"
    and "\<forall>s \<in> set (suffixes v). s \<noteq> [] \<longrightarrow> \<not> compatible p s"
    and "\<forall>s \<in> set (suffixes p). s \<noteq> [] \<longrightarrow> \<not> compatible s v"
    and "p = k \<or> count_occ p t = 0"
  shows "count_occ p (py_replace k v t) = 0"
  using assms
proof (induction k v t rule: py_replace.induct)
  case (1 old new)
  then show ?case by simp
next
  case (2 old new c cs)
  note k = \<open>old \<noteq> []\<close>
  show ?case
  proof (cases "prefix old (c # cs)")
    case True
    then obtain b where b: "c # cs = old @ b" by (auto simp: prefix_def)
    then have d: "drop (length old) (c # cs) = b" by simp
    have "count_occ p b \<le> count_occ p (c # cs)" unfolding b by (rule count_occ_append_ge)
    then have "p = old \<or> count_occ p b = 0" using "2.prems"(5) by auto
    then have "count_occ p (py_replace old new b) = 0"
      using "2.IH"(2) [OF k True] "2.prems"(1-4) d by simp
    moreover have "count_occ p (new @ py_replace old new b) = count_occ p (py_replace old new b)"
      using "2.prems"(3) by (rule count_occ_skip)
    ultimately show ?thesis using True k d by simp
  next
    case False
    then have r: "py_replace old new (c # cs) = c # py_replace old new cs" using k by simp
    have np: "\<not> prefix p (c # cs)" using "2.prems"(5) False by (auto split: if_splits)
    have "p = old \<or> count_occ p cs = 0" using "2.prems"(5) by (auto split: if_splits)
    then have ih: "count_occ p (py_replace old new cs) = 0"
      using "2.IH"(3) [OF k False] "2.prems"(1-4) by simp
    have "\<not> prefix p (c # py_replace old new cs)"
    proof
      assume "prefix p (c # py_replace old new cs)"
      then have "prefix p (py_replace old new (c # cs))" using r by simp
      with k "2.prems"(4) have "prefix p (c # cs)"
        using replace_prefix_reflect [of old p new p "c # cs"] \<open>p \<noteq> []\<close> by blast
      with np show False ..
    qed
    with ih r show ?thesis by simp
  qed
qed

lemma py_replace_prefix: "k \<noteq> [] \<Longrightarrow> py_replace k v (k @ b) = v @ py_replace k v b"
  by (cases k) simp_all

lemma py_replace_at_occurrence:
  assumes "k \<noteq> []"
    and "\<forall>s \<in> set (suffixes (tl k)). s \<noteq> [] \<longrightarrow> \<not> compatible k s"
  shows "py_replace k v (a @ k @ b) = py_replace k v a @ v @ py_replace k v b"
  using assms
proof (induction k v a rule: py_replace.induct)
  case (1 old new)
  then show ?case by (simp add: py_replace_prefix)
next
  case (2 old new c cs)
  note k = \<open>old \<noteq> []\<close>
  show ?case
  proof (cases "prefix old (c # cs)")
    case True
    then obtain r where r: "c # cs = old @ r" by (auto simp: prefix_def)
    then have d: "drop (length old) (c # cs) = r" by simp
    have "py_replace old new (r @ old @ b) = py_replace old new r @ new @ py_replace old new b"
      using "2.IH"(2) [OF k True] "2.prems" d by simp
    moreover have "py_replace old new ((c # cs) @ old @ b) = new @ py_replace old new (r @ old @ b)"
      unfolding r using k py_replace_prefix [of old new "r @ old @ b"] by simp
    moreover have "py_replace old new (c # cs) = new @ py_replace old new r"
      unfolding r using k by (rule py_replace_prefix)
    ultimately show ?thesis by simp
  next
    case False
    have np: "\<not> prefix old ((c # cs) @ old @ b)"
    proof
      assume "prefix old ((c # cs) @ old @ b)"
      with False obtain us where us: "old = (c # cs) @ us" "prefix us (old @ b)"
        unfolding prefix_append by blast
      have "us \<noteq> []" using us False by auto
      have "suffix us (tl old)" using us(1) by (simp add: suffix_def)
      then have "\<not> compatible old us" using "2.prems"(2) \<open>us \<noteq> []\<close> by simp
      moreover have "compatible us old"
        using us(2) by (rule prefix_append_compatible)
      ultimately show False by (simp add: compatible_def disj_commute)
    qed
    have "py_replace old new (cs @ old @ b) = py_replace old new cs @ new @ py_replace old new b"
      using "2.IH"(3) [OF k False] "2.prems" by simp
    then show ?thesis using np False k by simp
  qed
qed

subsection \<open>The kg entry of the Arabic table\<close>

lemma expand_arabic_unfold:
  "expand_arabic ARABIC_ABBREVIATIONS t =
   py_replace [0x62F, 0x648, 0x644, 0x627, 0x631]
       [0x62F, 0x648, 0x644, 0x627, 0x631, 0x20, 0x623, 0x645, 0x631, 0x64A, 0x643, 0x64A]
     (py_replace [0x643, 0x645] [0x643, 0x64A, 0x644, 0x648, 0x645, 0x62A, 0x631]
       (py_replace kg_abbr kilogram
         (py_replace [0x645, 0x2E] [0x645, 0x647, 0x646, 0x62F, 0x633]
           (py_replace [0x623, 0x2E, 0x62F]
               [0x623, 0x633, 0x62A, 0x627, 0x630, 0x20, 0x62F, 0x643, 0x62A, 0x648, 0x631]
             (py_replace [0x62F, 0x2E] [0x62F, 0x643, 0x62A, 0x648, 0x631] t)))))"
  by (simp add: ARABIC_ABBREVIATIONS_def kg_abbr_def kilogram_def)

lemma kg_step1: "count_occ kg_abbr t \<le> count_occ kg_abbr (py_replace [0x62F, 0x2E] [0x62F, 0x643, 0x62A, 0x648, 0x631] t)"
  by (rule count_occ_replace_mono) (simp_all add: kg_abbr_def compatible_def)

lemma kg_step2: "count_occ kg_abbr t \<le> count_occ kg_abbr (py_replace [0x623, 0x2E, 0x62F]
               [0x623, 0x633, 0x62A, 0x627, 0x630, 0x20, 0x62F, 0x643, 0x62A, 0x648, 0x631] t)"
  by (rule count_occ_replace_mono) (simp_all add: kg_abbr_def compatible_def)

lemma kg_step3: "count_occ kg_abbr t \<le> count_occ kg_abbr (py_replace [0x645, 0x2E] [0x645, 0x647, 0x646, 0x62F, 0x633] t)"
  by (rule count_occ_replace_mono) (simp_all add: kg_abbr_def compatible_def)

lemma kg_step4: "count_occ kg_abbr t \<le> count_occ kilogram (py_replace kg_abbr kilogram t)"
  by (rule count_occ_replaced) (simp_all add: kg_abbr_def kilogram_def compatible_def)

lemma kg_step5: "count_occ kilogram t \<le> count_occ kilogram (py_replace [0x643, 0x645] [0x643, 0x64A, 0x644, 0x648, 0x645, 0x62A, 0x631] t)"
  by (rule count_occ_replace_mono) (simp_all add: kilogram_def compatible_def)

lemma kg_step6: "count_occ kilogram t \<le> count_occ kilogram (py_replace [0x62F, 0x648, 0x644, 0x627, 0x631]
       [0x62F, 0x648, 0x644, 0x627, 0x631, 0x20, 0x623, 0x645, 0x631, 0x64A, 0x643, 0x64A] t)"
  by (rule count_occ_replace_mono) (simp_all add: kilogram_def compatible_def)

lemma kilogram_no_space: "kilogram \<noteq> [] \<and> list_all (\<lambda>c. \<not> is_space c) kilogram"
  by (simp add: kilogram_def is_space_def)

lemma kg_step7: "count_occ kilogram t \<le> count_occ kilogram (re_sub_whitespace [32] t)"
  using kilogram_no_space by (simp add: count_occ_re_sub_whitespace)

lemma kg_step8: "count_occ kilogram t \<le> count_occ kilogram (py_replace [34] [] t)"
  by (rule count_occ_replace_mono) (simp_all add: kilogram_def compatible_def)

lemma kg_step9: "count_occ kilogram (py_strip t) = count_occ kilogram t"
  using kilogram_no_space by (simp add: count_occ_py_strip)

lemma kg_none4: "count_occ kg_abbr (py_replace kg_abbr kilogram t) = 0"
  by (rule count_occ_replace_none) (simp_all add: kg_abbr_def kilogram_def compatible_def)

lemma kg_none5: "count_occ kg_abbr t = 0 \<Longrightarrow> count_occ kg_abbr (py_replace [0x643, 0x645] [0x643, 0x64A, 0x644, 0x648, 0x645, 0x62A, 0x631] t) = 0"
  by (rule count_occ_replace_none) (simp_all add: kg_abbr_def compatible_def)

lemma kg_none6: "count_occ kg_abbr t = 0 \<Longrightarrow> count_occ kg_abbr (py_replace [0x62F, 0x648, 0x644, 0x627, 0x631]
       [0x62F, 0x648, 0x644, 0x627, 0x631, 0x20, 0x623, 0x645, 0x631, 0x64A, 0x643, 0x64A] t) = 0"
  by (rule count_occ_replace_none) (simp_all add: kg_abbr_def compatible_def)

lemma kg_decomp: "py_replace kg_abbr kilogram (a @ kg_abbr @ b) = py_replace kg_abbr kilogram a @ kilogram @ py_replace kg_abbr kilogram b"
  by (rule py_replace_at_occurrence) (simp_all add: kg_abbr_def compatible_def)

lemma arabic_kg_examples:
  "normalize_arabic_text nfkc ([0x35, 0x20] @ kg_abbr) = [0x35, 0x20] @ kilogram"
  "normalize_arabic_text nfkc ([0x628] @ kg_abbr @ [0x627, 0x62A]) = [0x628] @ kilogram @ [0x627, 0x62A]"
  by (simp_all add: normalize_arabic_text_eval kg_abbr_def kilogram_def)

text \<open>
  C3. The key kg of the Arabic table is matched as a plain substring. On every input, with
  \<open>t\<close> the text after NFKC normalization and diacritic removal: the output of
  \<open>normalize_arabic_text\<close> has at least as many occurrences of the expansion as \<open>t\<close> has of
  the key; no occurrence of the key is left when the loop over the table ends; and the
  replacement step rewrites an occurrence whatever stands before and after it.
\<close>

theorem arabic_kg_expanded_at_every_occurrence:
  "(kg_abbr, kilogram) \<in> set ARABIC_ABBREVIATIONS \<and>
   count_occ kg_abbr (remove_diacritics (unicodedata_normalize_NFKC nfkc s))
     \<le> count_occ kilogram (normalize_arabic_text nfkc s) \<and>
   count_occ kg_abbr (expand_arabic ARABIC_ABBREVIATIONS (remove_diacritics (unicodedata_normalize_NFKC nfkc s))) = 0 \<and>
   py_replace kg_abbr kilogram (a @ kg_abbr @ b) = py_replace kg_abbr kilogram a @ kilogram @ py_replace kg_abbr kilogram b"
proof (intro conjI)
  show "(kg_abbr, kilogram) \<in> set ARABIC_ABBREVIATIONS"
    by (simp add: ARABIC_ABBREVIATIONS_def kg_abbr_def kilogram_def)
  let ?t = "remove_diacritics (unicodedata_normalize_NFKC nfkc s)"
  let ?t1 = "py_replace [0x62F, 0x2E] [0x62F, 0x643, 0x62A, 0x648, 0x631] ?t"
  let ?t2 = "py_replace [0x623, 0x2E, 0x62F]
               [0x623, 0x633, 0x62A, 0x627, 0x630, 0x20, 0x62F, 0x643, 0x62A, 0x648, 0x631] ?t1"
  let ?t3 = "py_replace [0x645, 0x2E] [0x645, 0x647, 0x646, 0x62F, 0x633] ?t2"
  let ?t4 = "py_replace kg_abbr kilogram ?t3"
  let ?t5 = "py_replace [0x643, 0x645] [0x643, 0x64A, 0x644, 0x648, 0x645, 0x62A, 0x631] ?t4"
  let ?t6 = "py_replace [0x62F, 0x648, 0x644, 0x627, 0x631]
       [0x62F, 0x648, 0x644, 0x627, 0x631, 0x20, 0x623, 0x645, 0x631, 0x64A, 0x643, 0x64A] ?t5"
  have e: "expand_arabic ARABIC_ABBREVIATIONS ?t = ?t6" by (rule expand_arabic_unfold)
  have n: "normalize_arabic_text nfkc s = py_strip (py_replace [34] [] (re_sub_whitespace [32] ?t6))"
    unfolding normalize_arabic_text_def e ..
  have "count_occ kg_abbr ?t \<le> count_occ kg_abbr ?t1" by (rule kg_step1)
  also have "\<dots> \<le> count_occ kg_abbr ?t2" by (rule kg_step2)
  also have "\<dots> \<le> count_occ kg_abbr ?t3" by (rule kg_step3)
  also have "\<dots> \<le> count_occ kilogram ?t4" by (rule kg_step4)
  also have "\<dots> \<le> count_occ kilogram ?t5" by (rule kg_step5)
  also have "\<dots> \<le> count_occ kilogram ?t6" by (rule kg_step6)
  also have "\<dots> \<le> count_occ kilogram (re_sub_whitespace [32] ?t6)" by (rule kg_step7)
  also have "\<dots> \<le> count_occ kilogram (py_replace [34] [] (re_sub_whitespace [32] ?t6))" by (rule kg_step8)
  also have "\<dots> = count_occ kilogram (normalize_arabic_text nfkc s)"
    unfolding n by (rule kg_step9 [symmetric])
  finally show "count_occ kg_abbr ?t \<le> count_occ kilogram (normalize_arabic_text nfkc s)" .
  have "count_occ kg_abbr ?t4 = 0" by (rule kg_none4)
  then have "count_occ kg_abbr ?t5 = 0" by (rule kg_none5)
  then have "count_occ kg_abbr ?t6 = 0" by (rule kg_none6)
  then show "count_occ kg_abbr (expand_arabic ARABIC_ABBREVIATIONS ?t) = 0" unfolding e .
  show "py_replace kg_abbr kilogram (a @ kg_abbr @ b) = py_replace kg_abbr kilogram a @ kilogram @ py_replace kg_abbr kilogram b"
    by (rule kg_decomp)
qed

subsection \<open>Case and idempotence of the Arabic pipeline\<close>

text \<open>
  C9. \<open>english_cleaners\<close> folds no case: a non-empty string of ASCII letters and single
  interior spaces, with no space at either end, is returned unchanged, and when it has an
  upper-case letter the result differs from that of \<open>basic_cleaners\<close>.
\<close>

theorem english_cleaners_keeps_case:
  assumes "letters_single_spaced s"
  shows "english_cleaners nfkc s = s \<and>
    (list_ex ascii_upper s \<longrightarrow> english_cleaners nfkc s \<noteq> basic_cleaners unicode_lower s)"
proof -
  have e: "english_cleaners nfkc s = s" using assms by (rule english_cleaners_fixes)
  have "list_all (\<lambda>c. c < 128) s"
    using assms by (auto simp: letters_single_spaced_def list_all_iff ascii_letter_def)
  then have "\<forall>c \<in> set (basic_cleaners unicode_lower s). \<not> ascii_upper c"
    by (rule basic_cleaners_no_upper)
  then have "s \<noteq> basic_cleaners unicode_lower s" if "list_ex ascii_upper s"
    using that by (auto simp: list_ex_iff)
  with e show ?thesis by simp
qed

theorem english_cleaners_keeps_case_witness:
  "letters_single_spaced (str ''Hello World'') \<and>
   english_cleaners (\<lambda>t. t) (str ''Hello World'') = str ''Hello World'' \<and>
   list_ex ascii_upper (str ''Hello World'') \<and>
   english_cleaners (\<lambda>t. t) (str ''Hello World'') \<noteq> basic_cleaners (\<lambda>t. t) (str ''Hello World'')"
proof -
  have h: "letters_single_spaced (str ''Hello World'')"
    by (simp add: letters_single_spaced_def str_def ascii_letter_def)
  have u: "list_ex ascii_upper (str ''Hello World'')"
    by (simp add: str_def ascii_upper_def)
  show ?thesis using english_cleaners_keeps_case [OF h, of "\<lambda>t. t" "\<lambda>t. t"] h u by blast
qed


lemma normalize_arabic_text_dollar: "normalize_arabic_text nfkc dollar = us_dollar"
  by (simp add: normalize_arabic_text_eval dollar_def us_dollar_def)

lemma normalize_arabic_text_us_dollar:
  "normalize_arabic_text nfkc us_dollar = us_dollar @ [0x20, 0x623, 0x645, 0x631, 0x64A, 0x643, 0x64A]"
  by (simp add: normalize_arabic_text_eval us_dollar_def)

text \<open>
  C10. \<open>normalize_arabic_text\<close> is not idempotent: the expansion of the key dollar of the
  table contains the key, so a second application expands it again.
\<close>

theorem normalize_arabic_text_not_idempotent:
  "(dollar, us_dollar) \<in> set ARABIC_ABBREVIATIONS \<and>
   normalize_arabic_text nfkc dollar = us_dollar \<and>
   normalize_arabic_text nfkc (normalize_arabic_text nfkc dollar) \<noteq>
     normalize_arabic_text nfkc dollar"
  by (simp add: normalize_arabic_text_dollar normalize_arabic_text_us_dollar)
     (simp add: ARABIC_ABBREVIATIONS_def dollar_def us_dollar_def)

subsection \<open>The basic pipeline\<close>

lemma re_sub_whitespace_no_space:
  "list_all (\<lambda>c. \<not> is_space c) s \<Longrightarrow> re_sub_whitespace r s = s"
  using re_sub_whitespace_keeps [of s r "[]"] by simp

lemma re_sub_whitespace_append:
  "a = [] \<or> \<not> is_space (last a) \<Longrightarrow>
   re_sub_whitespace r (a @ z) = re_sub_whitespace r a @ re_sub_whitespace r z"
proof (induction r a rule: re_sub_whitespace.induct)
  case (1 repl)
  show ?case by simp
next
  case (2 repl c cs)
  show ?case
  proof (cases "is_space c")
    case True
    with 2(3) have ne: "cs \<noteq> []" and l: "\<not> is_space (last cs)" by (auto split: if_splits)
    then have m: "last cs \<in> set cs" by simp
    have d: "dropWhile is_space (cs @ z) = dropWhile is_space cs @ z"
      using m l by (rule dropWhile_append1)
    have dn: "dropWhile is_space cs \<noteq> []" using m l by (auto simp: dropWhile_eq_Nil_conv)
    have "cs = takeWhile is_space cs @ dropWhile is_space cs" by simp
    then have "last cs = last (dropWhile is_space cs)" using dn by (metis last_appendR)
    with l have "\<not> is_space (last (dropWhile is_space cs))" by simp
    then have "re_sub_whitespace repl (dropWhile is_space cs @ z) =
        re_sub_whitespace repl (dropWhile is_space cs) @ re_sub_whitespace repl z"
      using 2(1) [OF True] by simp
    with True d show ?thesis by simp
  next
    case False
    have "cs = [] \<or> \<not> is_space (last cs)" using 2(3) by (auto split: if_splits)
    then have "re_sub_whitespace repl (cs @ z) =
        re_sub_whitespace repl cs @ re_sub_whitespace repl z"
      using 2(2) [OF False] by simp
    with False show ?thesis by simp
  qed
qed

lemma re_sub_whitespace_run:
  assumes "w \<noteq> []" "list_all is_space w" "b = [] \<or> \<not> is_space (hd b)"
  shows "re_sub_whitespace r (w @ b) = r @ re_sub_whitespace r b"
proof -
  obtain c w' where w: "w = c # w'" using assms(1) by (cases w) auto
  have "dropWhile is_space (w' @ b) = dropWhile is_space b"
    using assms(2) w by (intro dropWhile_append2) (simp add: list_all_iff)
  also have "\<dots> = b" using assms(3) by (cases b) auto
  finally show ?thesis using w assms(2) by simp
qed

lemma is_space_set:
  "is_space c \<longleftrightarrow> c \<in> {9..13} \<union> {28..32} \<union> {0x85, 0xA0, 0x1680} \<union> {0x2000..0x200A} \<union>
     {0x2028, 0x2029, 0x202F, 0x205F, 0x3000}"
  by (auto simp: is_space_def)

text \<open>
  C6. \<open>basic_cleaners\<close> maps \<^verbatim>\<open>HELLO   WORLD\<close> (three spaces) to \<^verbatim>\<open>hello world\<close>. On
  every input it lowercases first and collapses the result: an ASCII string has A..Z
  mapped to a..z and nothing else, any other string goes through the Unicode lowering;
  a string without white space is left as it is by the collapse, and a run of white space
  between a part that does not end and a part that does not start with white space
  becomes one ASCII space. The white space characters are listed.
\<close>

theorem basic_cleaners_lowercases_then_collapses:
  "basic_cleaners unicode_lower (str ''HELLO   WORLD'') = str ''hello world'' \<and>
   basic_cleaners unicode_lower text = collapse_whitespace (lowercase unicode_lower text) \<and>
   (list_all (\<lambda>c. c < 128) t1 \<longrightarrow>
      lowercase unicode_lower t1 = map (\<lambda>c. if 65 \<le> c \<and> c \<le> 90 then c + 32 else c) t1) \<and>
   (\<not> list_all (\<lambda>c. c < 128) t2 \<longrightarrow> lowercase unicode_lower t2 = unicode_lower t2) \<and>
   (list_all (\<lambda>c. \<not> is_space c) s \<longrightarrow> collapse_whitespace s = s) \<and>
   (w \<noteq> [] \<and> list_all is_space w \<and> (a = [] \<or> \<not> is_space (last a)) \<and>
    (b = [] \<or> \<not> is_space (hd b)) \<longrightarrow>
      collapse_whitespace (a @ w @ b) = collapse_whitespace a @ [32] @ collapse_whitespace b) \<and>
   (is_space c \<longleftrightarrow> c \<in> {9..13} \<union> {28..32} \<union> {0x85, 0xA0, 0x1680} \<union> {0x2000..0x200A} \<union>
     {0x2028, 0x2029, 0x202F, 0x205F, 0x3000})"
proof (intro conjI impI)
  show "basic_cleaners unicode_lower (str ''HELLO   WORLD'') = str ''hello world''"
    by (simp add: basic_cleaners_def lowercase_def py_lower_def collapse_whitespace_def str_def
        ascii_lower_def is_space_def)
  show "basic_cleaners unicode_lower text = collapse_whitespace (lowercase unicode_lower text)"
    by (simp add: basic_cleaners_def)
  show "lowercase unicode_lower t1 = map (\<lambda>c. if 65 \<le> c \<and> c \<le> 90 then c + 32 else c) t1"
    if "list_all (\<lambda>c. c < 128) t1"
    using that by (simp add: lowercase_def py_lower_def ascii_lower_def)
  show "lowercase unicode_lower t2 = unicode_lower t2" if "\<not> list_all (\<lambda>c. c < 128) t2"
    using that by (simp add: lowercase_def py_lower_def)
  show "collapse_whitespace s = s" if "list_all (\<lambda>c. \<not> is_space c) s"
    using that by (simp add: collapse_whitespace_def re_sub_whitespace_no_space)
  show "collapse_whitespace (a @ w @ b) = collapse_whitespace a @ [32] @ collapse_whitespace b"
    if h: "w \<noteq> [] \<and> list_all is_space w \<and> (a = [] \<or> \<not> is_space (last a)) \<and>
      (b = [] \<or> \<not> is_space (hd b))"
  proof -
    have "re_sub_whitespace [32] (a @ w @ b) =
        re_sub_whitespace [32] a @ re_sub_whitespace [32] (w @ b)"
      using h by (intro re_sub_whitespace_append) simp
    also have "re_sub_whitespace [32] (w @ b) = [32] @ re_sub_whitespace [32] b"
      using h by (intro re_sub_whitespace_run) simp_all
    finally show ?thesis by (simp add: collapse_whitespace_def)
  qed
  show "is_space c \<longleftrightarrow> c \<in> {9..13} \<union> {28..32} \<union> {0x85, 0xA0, 0x1680} \<union> {0x2000..0x200A} \<union>
     {0x2028, 0x2029, 0x202F, 0x205F, 0x3000}"
    by (rule is_space_set)
qed

theorem basic_cleaners_lowercases_then_collapses_witness:
  "list_all (\<lambda>c. c < 128) (str ''Ab'') \<and> lowercase (\<lambda>t. t) (str ''Ab'') = str ''ab'' \<and>
   \<not> list_all (\<lambda>c. c < 128) [0x100::nat] \<and> lowercase (\<lambda>t. 0x101 # t) [0x100] = [0x101, 0x100] \<and>
   list_all (\<lambda>c. \<not> is_space c) (str ''ab'') \<and> collapse_whitespace (str ''ab'') = str ''ab'' \<and>
   [9, 0x3000] \<noteq> [] \<and> list_all is_space [9, 0x3000] \<and> \<not> is_space (last (str ''a'')) \<and>
   \<not> is_space (hd (str ''b'')) \<and>
   collapse_whitespace (str ''a'' @ [9, 0x3000] @ str ''b'') =
     collapse_whitespace (str ''a'') @ [32] @ collapse_whitespace (str ''b'')"
proof -
  have h1: "list_all (\<lambda>c. c < 128) (str ''Ab'')" by (simp add: str_def)
  have h2: "\<not> list_all (\<lambda>c. c < 128) [0x100::nat]" by simp
  have h3: "list_all (\<lambda>c. \<not> is_space c) (str ''ab'')" by (simp add: str_def is_space_def)
  have h4: "[9, 0x3000] \<noteq> ([]::nat list) \<and> list_all is_space [9, 0x3000] \<and>
    (str ''a'' = [] \<or> \<not> is_space (last (str ''a''))) \<and>
    (str ''b'' = [] \<or> \<not> is_space (hd (str ''b'')))"
    by (simp add: str_def is_space_def)
  from basic_cleaners_lowercases_then_collapses [of "\<lambda>t. t" _ "str ''Ab''" _ "str ''ab''" "[9, 0x3000]" "str ''a''" "str ''b''"] h1 h3 h4
  have a: "lowercase (\<lambda>t. t) (str ''Ab'') = str ''ab''"
    and b: "collapse_whitespace (str ''ab'') = str ''ab''"
    and c: "collapse_whitespace (str ''a'' @ [9, 0x3000] @ str ''b'') =
     collapse_whitespace (str ''a'') @ [32] @ collapse_whitespace (str ''b'')"
    by (simp_all add: str_def)
  from basic_cleaners_lowercases_then_collapses [of "\<lambda>t. 0x101 # t" _ _ "[0x100]"] h2
  have d: "lowercase (\<lambda>t. 0x101 # t) [0x100] = [0x101, 0x100]" by simp
  show ?thesis using a b c d h1 h2 h3 h4 by (simp add: str_def)
qed


subsection \<open>The English abbreviation table\<close>

lemma ascii_word_is_word: "ascii_word c \<Longrightarrow> is_word ua c"
  by (auto simp: ascii_word_def is_word_def)

lemma ascii_word_not_period: "ascii_word c \<Longrightarrow> c \<noteq> 46"
  by (auto simp: ascii_word_def)

lemma expand_abbreviations_loop_foldl:
  "expand_abbreviations_loop ua uc tbl t =
   foldl (\<lambda>t (stem, repl). re_sub_abbreviation ua uc stem repl None t) t tbl"
  by (induction ua uc tbl t rule: expand_abbreviations_loop.induct) simp_all

lemma re_sub_abbreviation_no_period:
  "46 \<notin> set t \<Longrightarrow> re_sub_abbreviation ua uc stem repl prev t = t"
proof (induction t arbitrary: prev)
  case Nil
  show ?case by simp
next
  case (Cons c cs)
  have "\<not> match_abbreviation ua uc stem prev (c # cs)"
  proof
    assume "match_abbreviation ua uc stem prev (c # cs)"
    then have "length stem < length (c # cs)" "(c # cs) ! length stem = 46"
      by (simp_all add: match_abbreviation_def)
    then have "46 \<in> set (c # cs)" by (metis nth_mem)
    with Cons.prems show False by simp
  qed
  with Cons show ?case by simp
qed

lemma expand_abbreviations_loop_no_period:
  "46 \<notin> set t \<Longrightarrow> expand_abbreviations_loop ua uc tbl t = t"
  by (induction ua uc tbl t rule: expand_abbreviations_loop.induct)
     (simp_all add: re_sub_abbreviation_no_period)

lemma re_sub_abbreviation_no_boundary:
  "is_word ua p = is_word ua c \<Longrightarrow>
   re_sub_abbreviation ua uc stem repl (Some p) (c # cs) =
   c # re_sub_abbreviation ua uc stem repl (Some c) cs"
  by (simp add: match_abbreviation_def at_boundary_def)

lemma re_sub_abbreviation_start_non_word:
  "\<not> is_word ua c \<Longrightarrow>
   re_sub_abbreviation ua uc stem repl None (c # cs) =
   c # re_sub_abbreviation ua uc stem repl (Some c) cs"
  by (simp add: match_abbreviation_def at_boundary_def)

lemma re_sub_abbreviation_match:
  assumes "m \<noteq> []" "length m = length stem" "list_all2 (ci_eq uc) stem m"
    and "(case prev of None \<Rightarrow> False | Some p \<Rightarrow> is_word ua p) \<noteq> is_word ua (hd m)"
  shows "re_sub_abbreviation ua uc stem repl prev (m @ 46 # rest) =
         repl @ re_sub_abbreviation ua uc stem repl (Some 46) rest"
proof -
  obtain c m' where m: "m = c # m'" using assms(1) by (cases m) auto
  have t: "take (length stem) (m @ 46 # rest) = m" using assms(2) by simp
  have n: "(m @ 46 # rest) ! length stem = 46" using assms(2) by (metis nth_append_length)
  have b: "at_boundary ua prev (m @ 46 # rest)"
    using assms(4) m by (simp add: at_boundary_def)
  have l: "length stem < length (m @ 46 # rest)" using assms(2) by simp
  have "match_abbreviation ua uc stem prev (m @ 46 # rest)"
    unfolding match_abbreviation_def t using b l n assms(3) by blast
  moreover have "drop (length stem) (m' @ 46 # rest) = rest"
  proof -
    have "length stem = Suc (length m')" using assms(2) m by simp
    then show ?thesis by simp
  qed
  ultimately show ?thesis using m by simp
qed

lemma re_sub_abbreviation_other:
  assumes "\<not> (length stem < length (c # cs) \<and>
      list_all2 (ci_eq uc) stem (take (length stem) (c # cs)) \<and> (c # cs) ! length stem = 46)"
  shows "re_sub_abbreviation ua uc stem repl prev (c # cs) =
         c # re_sub_abbreviation ua uc stem repl (Some c) cs"
  using assms by (auto simp: match_abbreviation_def)

lemma re_sub_abbreviation_inside_word:
  assumes "stem \<noteq> []" "is_word ua p"
  shows "list_all ascii_word ws \<Longrightarrow>
    re_sub_abbreviation ua uc stem repl (Some p) (ws @ [46]) = ws @ [46]"
  using assms(2)
proof (induction ws arbitrary: p)
  case Nil
  then show ?case using assms(1) by (simp add: match_abbreviation_def)
next
  case (Cons c ws)
  then have w: "is_word ua c" by (simp add: ascii_word_is_word)
  have "re_sub_abbreviation ua uc stem repl (Some p) (c # (ws @ [46])) =
      c # re_sub_abbreviation ua uc stem repl (Some c) (ws @ [46])"
    by (rule re_sub_abbreviation_no_boundary) (simp add: w Cons.prems)
  moreover have "re_sub_abbreviation ua uc stem repl (Some c) (ws @ [46]) = ws @ [46]"
    using Cons.IH [OF _ w] Cons.prems by simp
  ultimately show ?case by (simp del: re_sub_abbreviation.simps)
qed

lemma list_all2_ci_eq_ascii:
  "list_all ascii_word ws \<Longrightarrow>
   list_all2 (ci_eq uc) stem ws \<longleftrightarrow> map ascii_lower stem = map ascii_lower ws"
proof (induction stem arbitrary: ws)
  case Nil
  show ?case by auto
next
  case (Cons s stem)
  show ?case
  proof (cases ws)
    case Nil
    then show ?thesis by simp
  next
    case (Cons c ws')
    with Cons.prems have "c < 128" by (auto simp: ascii_word_def)
    then have "ci_eq uc s c \<longleftrightarrow> ascii_lower s = ascii_lower c" by (auto simp: ci_eq_def)
    with Cons Cons.IH [of ws'] Cons.prems show ?thesis by simp
  qed
qed

lemma re_sub_abbreviation_token:
  assumes "stem \<noteq> []" "ws \<noteq> []" "list_all ascii_word ws"
  shows "re_sub_abbreviation ua uc stem repl None (ws @ [46]) =
    (if map ascii_lower stem = map ascii_lower ws then repl else ws @ [46])"
proof -
  obtain c ws' where ws: "ws = c # ws'" using assms(2) by (cases ws) auto
  have w: "is_word ua c" using assms(3) ws by (simp add: ascii_word_is_word)
  have np: "46 \<notin> set ws" using assms(3) by (auto simp: list_all_iff dest: ascii_word_not_period)
  have "match_abbreviation ua uc stem None (ws @ [46]) \<longleftrightarrow>
      length stem = length ws \<and> list_all2 (ci_eq uc) stem ws"
  proof
    assume a: "match_abbreviation ua uc stem None (ws @ [46])"
    then have "length stem < length (ws @ [46]) \<and>
        list_all2 (ci_eq uc) stem (take (length stem) (ws @ [46])) \<and>
        (ws @ [46]) ! length stem = 46"
      unfolding match_abbreviation_def by blast
    then have l: "length stem \<le> length ws" and n: "(ws @ [46]) ! length stem = 46"
      and t: "list_all2 (ci_eq uc) stem (take (length stem) (ws @ [46]))"
      by (simp, blast, blast)
    have "length stem = length ws"
    proof (rule ccontr)
      assume "length stem \<noteq> length ws"
      with l have "length stem < length ws" by simp
      then have "ws ! length stem \<in> set ws" by (rule nth_mem)
      moreover have "ws ! length stem = 46"
        using n \<open>length stem < length ws\<close> by (simp add: nth_append)
      ultimately show False using np by simp
    qed
    with t show "length stem = length ws \<and> list_all2 (ci_eq uc) stem ws" by simp
  next
    assume "length stem = length ws \<and> list_all2 (ci_eq uc) stem ws"
    then show "match_abbreviation ua uc stem None (ws @ [46])"
      using w ws by (simp add: match_abbreviation_def at_boundary_def nth_append)
  qed
  also have "\<dots> \<longleftrightarrow> map ascii_lower stem = map ascii_lower ws"
    using list_all2_ci_eq_ascii [OF assms(3), of uc stem] by (auto dest: list_all2_lengthD)
  finally have mt: "match_abbreviation ua uc stem None (ws @ [46]) \<longleftrightarrow>
      map ascii_lower stem = map ascii_lower ws" .
  show ?thesis
  proof (cases "map ascii_lower stem = map ascii_lower ws")
    case True
    then have "length stem = length ws" by (metis length_map)
    then have "drop (length stem) (ws' @ [46]) = []" using ws by simp
    with True mt ws show ?thesis by simp
  next
    case False
    have "list_all ascii_word ws'" using assms(3) ws by simp
    then have "re_sub_abbreviation ua uc stem repl (Some c) (ws' @ [46]) = ws' @ [46]"
      using assms(1) w by (intro re_sub_abbreviation_inside_word)
    with False mt ws show ?thesis by simp
  qed
qed

lemma expand_abbreviations_loop_token:
  assumes "ws \<noteq> []" "list_all ascii_word ws"
  shows "\<forall>(s, r) \<in> set tbl. s \<noteq> [] \<and> map ascii_lower s = s \<and> 46 \<notin> set r \<Longrightarrow>
    expand_abbreviations_loop ua uc tbl (ws @ [46]) =
    (case map_of tbl (map ascii_lower ws) of None \<Rightarrow> ws @ [46] | Some r \<Rightarrow> r)"
proof (induction tbl)
  case Nil
  show ?case by simp
next
  case (Cons e tbl)
  obtain s r where e: "e = (s, r)" by (cases e)
  with Cons.prems have s: "s \<noteq> []" "map ascii_lower s = s" "46 \<notin> set r" by simp_all
  have step: "re_sub_abbreviation ua uc s r None (ws @ [46]) =
      (if s = map ascii_lower ws then r else ws @ [46])"
    using re_sub_abbreviation_token [OF s(1) assms, of ua uc r] s(2) by simp
  show ?case
  proof (cases "s = map ascii_lower ws")
    case True
    with step e s(3) show ?thesis by (simp add: expand_abbreviations_loop_no_period)
  next
    case False
    with step e Cons show ?thesis by auto
  qed
qed

lemma abbreviations_wellformed:
  "\<forall>(s, r) \<in> set abbreviations. s \<noteq> [] \<and> map ascii_lower s = s \<and> 46 \<notin> set r"
  by (simp add: abbreviations_def str_def ascii_lower_def)

lemma expand_abbreviations_token:
  assumes "ws \<noteq> []" "list_all ascii_word ws"
  shows "expand_abbreviations ua uc (ws @ [46]) =
    (case map_of abbreviations (map ascii_lower ws) of None \<Rightarrow> ws @ [46] | Some r \<Rightarrow> r)"
  unfolding expand_abbreviations_def
  using assms abbreviations_wellformed by (rule expand_abbreviations_loop_token)

text \<open>
  C4. \<open>expand_abbreviations\<close> maps \<^verbatim>\<open>Dr. Smith and Mrs. Jones\<close> to
  \<^verbatim>\<open>doctor Smith and misess Jones\<close>. On every input it is the eighteen substitutions in
  the order of the table, each fed with the result of the one before (\<^verbatim>\<open>dr.st.\<close> gives
  \<^verbatim>\<open>doctorst.\<close>, since \<^verbatim>\<open>dr\<close> comes before \<^verbatim>\<open>st\<close>). A substitution rewrites nothing at
  a position that is not a word boundary (\<^verbatim>\<open>x_dr.\<close> is unchanged), rewrites a stem in any
  case followed by a period at a word boundary to the replacement as the table has it,
  and copies every character where the stem and the period do not follow. A single ASCII
  word followed by a period is replaced by the entry of its lower-case form, if there is
  one, and is unchanged otherwise.
\<close>

theorem expand_abbreviations_matches_at_boundary:
  "expand_abbreviations ua uc (str ''Dr. Smith and Mrs. Jones'') =
     str ''doctor Smith and misess Jones'' \<and>
   expand_abbreviations ua uc text =
     foldl (\<lambda>t (stem, repl). re_sub_abbreviation ua uc stem repl None t) text
       [(str ''mrs'', str ''misess''), (str ''mr'', str ''mister''), (str ''dr'', str ''doctor''),
        (str ''st'', str ''saint''), (str ''co'', str ''company''), (str ''jr'', str ''junior''),
        (str ''maj'', str ''major''), (str ''gen'', str ''general''), (str ''drs'', str ''doctors''),
        (str ''rev'', str ''reverend''), (str ''lt'', str ''lieutenant''),
        (str ''hon'', str ''honorable''), (str ''sgt'', str ''sergeant''),
        (str ''capt'', str ''captain''), (str ''esq'', str ''esquire''),
        (str ''ltd'', str ''limited''), (str ''col'', str ''colonel''), (str ''ft'', str ''fort'')] \<and>
   expand_abbreviations ua uc (str ''dr.st.'') = str ''doctorst.'' \<and>
   expand_abbreviations ua uc (str ''x_dr.'') = str ''x_dr.'' \<and>
   (is_word ua p = is_word ua c \<longrightarrow>
      re_sub_abbreviation ua uc stem repl (Some p) (c # cs) =
      c # re_sub_abbreviation ua uc stem repl (Some c) cs) \<and>
   (\<not> is_word ua e \<longrightarrow>
      re_sub_abbreviation ua uc stem repl None (e # es) =
      e # re_sub_abbreviation ua uc stem repl (Some e) es) \<and>
   (m \<noteq> [] \<and> length m = length stem \<and> list_all2 (ci_eq uc) stem m \<and>
    (case prev of None \<Rightarrow> False | Some q \<Rightarrow> is_word ua q) \<noteq> is_word ua (hd m) \<longrightarrow>
      re_sub_abbreviation ua uc stem repl prev (m @ 46 # rest) =
      repl @ re_sub_abbreviation ua uc stem repl (Some 46) rest) \<and>
   (\<not> (length stem < length (d # ds) \<and>
       list_all2 (ci_eq uc) stem (take (length stem) (d # ds)) \<and> (d # ds) ! length stem = 46) \<longrightarrow>
      re_sub_abbreviation ua uc stem repl before (d # ds) =
      d # re_sub_abbreviation ua uc stem repl (Some d) ds) \<and>
   (ws \<noteq> [] \<and> list_all ascii_word ws \<longrightarrow>
      expand_abbreviations ua uc (ws @ [46]) =
      (case map_of abbreviations (map (\<lambda>c. if 65 \<le> c \<and> c \<le> 90 then c + 32 else c) ws) of
         None \<Rightarrow> ws @ [46] | Some r \<Rightarrow> r)) \<and>
   (k < 128 \<longrightarrow>
      is_word ua k = ((48 \<le> k \<and> k \<le> 57) \<or> (65 \<le> k \<and> k \<le> 90) \<or> k = 95 \<or> (97 \<le> k \<and> k \<le> 122))) \<and>
   (k < 128 \<longrightarrow>
      ci_eq uc x k =
      ((if 65 \<le> k \<and> k \<le> 90 then k + 32 else k) = (if 65 \<le> x \<and> x \<le> 90 then x + 32 else x)))"
proof (intro conjI impI)
  show "expand_abbreviations ua uc (str ''Dr. Smith and Mrs. Jones'') =
     str ''doctor Smith and misess Jones''"
    by (simp add: expand_abbreviations_def abbreviations_def str_def match_abbreviation_def
        at_boundary_def is_word_def ci_eq_def ascii_lower_def)
  show "expand_abbreviations ua uc text =
     foldl (\<lambda>t (stem, repl). re_sub_abbreviation ua uc stem repl None t) text
       [(str ''mrs'', str ''misess''), (str ''mr'', str ''mister''), (str ''dr'', str ''doctor''),
        (str ''st'', str ''saint''), (str ''co'', str ''company''), (str ''jr'', str ''junior''),
        (str ''maj'', str ''major''), (str ''gen'', str ''general''), (str ''drs'', str ''doctors''),
        (str ''rev'', str ''reverend''), (str ''lt'', str ''lieutenant''),
        (str ''hon'', str ''honorable''), (str ''sgt'', str ''sergeant''),
        (str ''capt'', str ''captain''), (str ''esq'', str ''esquire''),
        (str ''ltd'', str ''limited''), (str ''col'', str ''colonel''), (str ''ft'', str ''fort'')]"
    unfolding expand_abbreviations_def expand_abbreviations_loop_foldl abbreviations_def ..
  show "expand_abbreviations ua uc (str ''dr.st.'') = str ''doctorst.''"
    by (simp add: expand_abbreviations_def abbreviations_def str_def match_abbreviation_def
        at_boundary_def is_word_def ci_eq_def ascii_lower_def)
  show "expand_abbreviations ua uc (str ''x_dr.'') = str ''x_dr.''"
    by (simp add: expand_abbreviations_def abbreviations_def str_def match_abbreviation_def
        at_boundary_def is_word_def ci_eq_def ascii_lower_def)
  show "re_sub_abbreviation ua uc stem repl (Some p) (c # cs) =
      c # re_sub_abbreviation ua uc stem repl (Some c) cs" if "is_word ua p = is_word ua c"
    using that by (rule re_sub_abbreviation_no_boundary)
  show "re_sub_abbreviation ua uc stem repl None (e # es) =
      e # re_sub_abbreviation ua uc stem repl (Some e) es" if "\<not> is_word ua e"
    using that by (rule re_sub_abbreviation_start_non_word)
  show "re_sub_abbreviation ua uc stem repl prev (m @ 46 # rest) =
      repl @ re_sub_abbreviation ua uc stem repl (Some 46) rest"
    if "m \<noteq> [] \<and> length m = length stem \<and> list_all2 (ci_eq uc) stem m \<and>
      (case prev of None \<Rightarrow> False | Some q \<Rightarrow> is_word ua q) \<noteq> is_word ua (hd m)"
    using that by (intro re_sub_abbreviation_match) blast+
  show "re_sub_abbreviation ua uc stem repl before (d # ds) =
      d # re_sub_abbreviation ua uc stem repl (Some d) ds"
    if "\<not> (length stem < length (d # ds) \<and>
       list_all2 (ci_eq uc) stem (take (length stem) (d # ds)) \<and> (d # ds) ! length stem = 46)"
    using that by (rule re_sub_abbreviation_other)
  show "expand_abbreviations ua uc (ws @ [46]) =
      (case map_of abbreviations (map (\<lambda>c. if 65 \<le> c \<and> c \<le> 90 then c + 32 else c) ws) of
         None \<Rightarrow> ws @ [46] | Some r \<Rightarrow> r)"
    if "ws \<noteq> [] \<and> list_all ascii_word ws"
  proof -
    have "(\<lambda>c. if 65 \<le> c \<and> c \<le> 90 then c + 32 else c) = ascii_lower"
      by (rule ext) (simp add: ascii_lower_def)
    then show ?thesis using that expand_abbreviations_token [of ws ua uc] by simp
  qed
  show "is_word ua k = ((48 \<le> k \<and> k \<le> 57) \<or> (65 \<le> k \<and> k \<le> 90) \<or> k = 95 \<or> (97 \<le> k \<and> k \<le> 122))"
    if "k < 128"
    using that by (simp add: is_word_def)
  show "ci_eq uc x k =
      ((if 65 \<le> k \<and> k \<le> 90 then k + 32 else k) = (if 65 \<le> x \<and> x \<le> 90 then x + 32 else x))"
    if "k < 128"
    using that by (simp add: ci_eq_def ascii_lower_def)
qed

lemmas abbr_eval = str_def match_abbreviation_def at_boundary_def is_word_def ci_eq_def
  ascii_lower_def ascii_word_def

theorem expand_abbreviations_matches_at_boundary_witness:
  "is_word (\<lambda>c. False) 120 = is_word (\<lambda>c. False) 100 \<and>
   re_sub_abbreviation (\<lambda>c. False) (\<lambda>p c. False) (str ''dr'') (str ''doctor'') (Some 120) (str ''dr.'')
     = str ''dr.'' \<and>
   \<not> is_word (\<lambda>c. False) 46 \<and>
   re_sub_abbreviation (\<lambda>c. False) (\<lambda>p c. False) (str ''dr'') (str ''doctor'') None (str ''.dr.'')
     = str ''.doctor'' \<and>
   str ''DR'' \<noteq> [] \<and> length (str ''DR'') = length (str ''dr'') \<and>
   list_all2 (ci_eq (\<lambda>p c. False)) (str ''dr'') (str ''DR'') \<and>
   (case Some 32 of None \<Rightarrow> False | Some q \<Rightarrow> is_word (\<lambda>c. False) q) \<noteq>
     is_word (\<lambda>c. False) (hd (str ''DR'')) \<and>
   re_sub_abbreviation (\<lambda>c. False) (\<lambda>p c. False) (str ''dr'') (str ''doctor'') (Some 32)
     (str ''DR. x'') = str ''doctor x'' \<and>
   \<not> (length (str ''dr'') < length (str ''drs.'') \<and>
      list_all2 (ci_eq (\<lambda>p c. False)) (str ''dr'') (take (length (str ''dr'')) (str ''drs.'')) \<and>
      str ''drs.'' ! length (str ''dr'') = 46) \<and>
   re_sub_abbreviation (\<lambda>c. False) (\<lambda>p c. False) (str ''dr'') (str ''doctor'') None (str ''drs.'')
     = str ''drs.'' \<and>
   str ''MRS'' \<noteq> [] \<and> list_all ascii_word (str ''MRS'') \<and>
   expand_abbreviations (\<lambda>c. False) (\<lambda>p c. False) (str ''MRS.'') = str ''misess'' \<and>
   (95::nat) < 128 \<and> is_word (\<lambda>c. False) 95 \<and> ci_eq (\<lambda>p c. False) 100 68"
proof -
  note t = expand_abbreviations_matches_at_boundary [where ua = "\<lambda>c. False" and uc = "\<lambda>p c. False" and stem = "str ''dr''"
      and repl = "str ''doctor''" and p = 120 and c = 100 and cs = "str ''r.''"
      and e = 46 and es = "str ''dr.''" and m = "str ''DR''" and prev = "Some 32"
      and rest = "str '' x''" and d = 100 and ds = "str ''rs.''" and before = None
      and ws = "str ''MRS''" and k = 95 and x = 100]
  note u = expand_abbreviations_matches_at_boundary [where uc = "\<lambda>p c. False" and k = 68 and x = 100]
  have h5: "is_word (\<lambda>c. False) 120 = is_word (\<lambda>c. False) 100" by (simp add: is_word_def)
  have h6: "\<not> is_word (\<lambda>c. False) 46" by (simp add: is_word_def)
  have h7: "str ''DR'' \<noteq> [] \<and> length (str ''DR'') = length (str ''dr'') \<and>
     list_all2 (ci_eq (\<lambda>p c. False)) (str ''dr'') (str ''DR'') \<and>
     (case Some 32 of None \<Rightarrow> False | Some q \<Rightarrow> is_word (\<lambda>c. False) q) \<noteq>
       is_word (\<lambda>c. False) (hd (str ''DR''))"
    by (simp add: abbr_eval)
  have h8: "\<not> (length (str ''dr'') < length (100 # str ''rs.'') \<and>
      list_all2 (ci_eq (\<lambda>p c. False)) (str ''dr'') (take (length (str ''dr'')) (100 # str ''rs.'')) \<and>
      (100 # str ''rs.'') ! length (str ''dr'') = 46)"
    by (simp add: abbr_eval)
  have h9: "str ''MRS'' \<noteq> [] \<and> list_all ascii_word (str ''MRS'')" by (simp add: abbr_eval)
  have h10: "(95::nat) < 128" "(68::nat) < 128" by simp_all
  from t h5 have c5: "re_sub_abbreviation (\<lambda>c. False) (\<lambda>p c. False) (str ''dr'') (str ''doctor'')
      (Some 120) (100 # str ''r.'') =
      100 # re_sub_abbreviation (\<lambda>c. False) (\<lambda>p c. False) (str ''dr'') (str ''doctor'') (Some 100) (str ''r.'')"
    by blast
  from t h6 have c6: "re_sub_abbreviation (\<lambda>c. False) (\<lambda>p c. False) (str ''dr'') (str ''doctor'')
      None (46 # str ''dr.'') =
      46 # re_sub_abbreviation (\<lambda>c. False) (\<lambda>p c. False) (str ''dr'') (str ''doctor'') (Some 46) (str ''dr.'')"
    by blast
  from t h7 have c7: "re_sub_abbreviation (\<lambda>c. False) (\<lambda>p c. False) (str ''dr'') (str ''doctor'')
      (Some 32) (str ''DR'' @ 46 # str '' x'') =
      str ''doctor'' @ re_sub_abbreviation (\<lambda>c. False) (\<lambda>p c. False) (str ''dr'') (str ''doctor'') (Some 46) (str '' x'')"
    by blast
  from t h8 have c8: "re_sub_abbreviation (\<lambda>c. False) (\<lambda>p c. False) (str ''dr'') (str ''doctor'')
      None (100 # str ''rs.'') =
      100 # re_sub_abbreviation (\<lambda>c. False) (\<lambda>p c. False) (str ''dr'') (str ''doctor'') (Some 100) (str ''rs.'')"
    by blast
  from t h9 have c9: "expand_abbreviations (\<lambda>c. False) (\<lambda>p c. False) (str ''MRS'' @ [46]) =
      (case map_of abbreviations (map (\<lambda>c. if 65 \<le> c \<and> c \<le> 90 then c + 32 else c) (str ''MRS'')) of
         None \<Rightarrow> str ''MRS'' @ [46] | Some r \<Rightarrow> r)"
    by blast
  from t h10 have c10: "is_word (\<lambda>c. False) 95" by simp
  from u h10 have c11: "ci_eq (\<lambda>p c. False) 100 68" by simp
  have "re_sub_abbreviation (\<lambda>c. False) (\<lambda>p c. False) (str ''dr'') (str ''doctor'') (Some 120) (str ''dr.'')
     = str ''dr.''"
    using c5 by (simp add: abbr_eval)
  moreover have "re_sub_abbreviation (\<lambda>c. False) (\<lambda>p c. False) (str ''dr'') (str ''doctor'') None (str ''.dr.'')
     = str ''.doctor''"
    using c6 by (simp add: abbr_eval)
  moreover have "re_sub_abbreviation (\<lambda>c. False) (\<lambda>p c. False) (str ''dr'') (str ''doctor'') (Some 32)
     (str ''DR. x'') = str ''doctor x''"
    using c7 by (simp add: abbr_eval)
  moreover have "re_sub_abbreviation (\<lambda>c. False) (\<lambda>p c. False) (str ''dr'') (str ''doctor'') None (str ''drs.'')
     = str ''drs.''"
    using c8 by (simp add: abbr_eval)
  moreover have "expand_abbreviations (\<lambda>c. False) (\<lambda>p c. False) (str ''MRS.'') = str ''misess''"
    using c9 by (simp add: abbreviations_def str_def)
  ultimately show ?thesis using h5 h6 h7 h8 h9 h10 c10 c11 by (simp add: str_def)
qed

end
